theory Spec2Isabelle
  imports Complex_Main
begin

section \<open>The playlist of \<^verbatim>\<open>util/tracklist.py\<close>\<close>

text \<open>
  The class \<^verbatim>\<open>PlayList\<close> keeps a list of Track objects, an index into it, the
  track being timed and a pause flag. Track objects are shared: the object that
  \<^verbatim>\<open>current_track\<close> names is the very object stored in \<^verbatim>\<open>track_list\<close>, and
  the methods write into its attributes. The model therefore keeps the Track objects in
  a store, addressed by references, and the list and \<^verbatim>\<open>current_track\<close> hold
  references. A method is a function from the state before the call to its result and
  the state after it; a Python exception is an \<open>Inl\<close> result, returned together with
  the state as the statements before the raise left it. Each read of \<^verbatim>\<open>time.time()\<close>
  is a parameter of the method.
\<close>

subsection \<open>Numbers\<close>

text \<open>
  Clock values, durations and offsets are Python numbers, integers or floats. A finite
  one denotes a real number, and Python compares two such numbers by the real numbers
  they denote, so the model holds them as reals and compares them as reals. Subtraction
  is another matter: on floats the result is rounded. The methods that subtract therefore
  take the subtraction as their first parameter, and nothing is assumed about it; what is
  proved holds whatever the subtraction returns.
\<close>

type_synonym subtraction = "real \<Rightarrow> real \<Rightarrow> real"

subsection \<open>Python lists and exceptions\<close>

datatype error = IndexError | AttributeError | ValueError

text \<open>
  The position that a Python index names in a list of \<open>n\<close> elements: indexes from
  \<open>-n\<close> to \<open>-1\<close> count from the end, and anything outside \<open>-n .. n-1\<close> names
  no position.
\<close>

definition norm_index :: "nat \<Rightarrow> int \<Rightarrow> nat option" where
  "norm_index n i =
     (if 0 \<le> i \<and> i < int n then Some (nat i)
      else if - int n \<le> i \<and> i < 0 then Some (nat (int n + i))
      else None)"

text \<open>\<^verbatim>\<open>xs[i]\<close> and \<^verbatim>\<open>del xs[i]\<close>; both raise IndexError out of range.\<close>

definition py_index :: "'a list \<Rightarrow> int \<Rightarrow> error + 'a" where
  "py_index xs i =
     (case norm_index (length xs) i of
        None \<Rightarrow> Inl IndexError
      | Some k \<Rightarrow> Inr (xs ! k))"

definition py_del :: "'a list \<Rightarrow> int \<Rightarrow> error + 'a list" where
  "py_del xs i =
     (case norm_index (length xs) i of
        None \<Rightarrow> Inl IndexError
      | Some k \<Rightarrow> Inr (take k xs @ drop (Suc k) xs))"

subsection \<open>Tracks\<close>

text \<open>
  Modelled from the spec: the class Track is not part of \<^verbatim>\<open>tracklist.py\<close>. The spec
  gives it the attributes \<^verbatim>\<open>id\<close>, \<^verbatim>\<open>title\<close>, \<^verbatim>\<open>owner\<close>, \<^verbatim>\<open>time\<close> (the
  duration), \<^verbatim>\<open>start\<close> and \<^verbatim>\<open>pause\<close>. The identity is a Python value that
  \<^verbatim>\<open>add\<close> tests for truth: \<^verbatim>\<open>None\<close>, the empty string and the number 0 are
  false.
\<close>

datatype ident = NoneId | StrId string | IntId int

fun truthy :: "ident \<Rightarrow> bool" where
  "truthy NoneId = False"
| "truthy (StrId s) = (s \<noteq> [])"
| "truthy (IntId n) = (n \<noteq> 0)"

record Track =
  track_id :: ident
  track_title :: string
  track_owner :: string
  track_time :: real
  track_start :: real
  track_pause :: real

type_synonym ref = nat

subsection \<open>The state\<close>

record PlayList =
  track_list :: "ref list"
  track_index :: int
  current_track :: "ref option"
  is_paused :: bool
  store :: "ref \<Rightarrow> Track"

text \<open>\<^verbatim>\<open>__init__\<close>; the Track objects that exist are those of the given store.\<close>

definition init :: "(ref \<Rightarrow> Track) \<Rightarrow> PlayList" where
  "init st = \<lparr>track_list = [], track_index = 0, current_track = None,
              is_paused = False, store = st\<rparr>"

text \<open>Attribute writes on a stored Track.\<close>

definition set_owner :: "ref \<Rightarrow> string \<Rightarrow> PlayList \<Rightarrow> PlayList" where
  "set_owner r v s = s\<lparr>store := (store s)(r := (store s r)\<lparr>track_owner := v\<rparr>)\<rparr>"

definition set_start :: "ref \<Rightarrow> real \<Rightarrow> PlayList \<Rightarrow> PlayList" where
  "set_start r v s = s\<lparr>store := (store s)(r := (store s r)\<lparr>track_start := v\<rparr>)\<rparr>"

definition set_pause :: "ref \<Rightarrow> real \<Rightarrow> PlayList \<Rightarrow> PlayList" where
  "set_pause r v s = s\<lparr>store := (store s)(r := (store s r)\<lparr>track_pause := v\<rparr>)\<rparr>"

text \<open>\<^verbatim>\<open>if self.is_paused: self.is_paused = False\<close>\<close>

definition unpause :: "PlayList \<Rightarrow> PlayList" where
  "unpause s = (if is_paused s then s\<lparr>is_paused := False\<rparr> else s)"

subsection \<open>Properties\<close>

definition track :: "PlayList \<Rightarrow> ref option \<times> PlayList" where
  "track s = (current_track s, s)"

definition current_index :: "PlayList \<Rightarrow> int \<times> PlayList" where
  "current_index s = (track_index s, s)"

definition last_index :: "PlayList \<Rightarrow> int \<times> PlayList" where
  "last_index s =
     (if length (track_list s) = 0 then (0, s)
      else (int (length (track_list s)) - 1, s))"

definition elapsed :: "subtraction \<Rightarrow> real \<Rightarrow> PlayList \<Rightarrow> real \<times> PlayList" where
  "elapsed sub now s =
     (case current_track s of
        Some r \<Rightarrow>
          if is_paused s then (track_pause (store s r), s)
          else let e = sub now (track_start (store s r))
               in if e > track_time (store s r) then (0, s) else (e, s)
      | None \<Rightarrow> (0, s))"

text \<open>\<^verbatim>\<open>has_active_track\<close> reads \<^verbatim>\<open>self.elapsed\<close>, and so the clock, twice.\<close>

definition has_active_track ::
  "subtraction \<Rightarrow> real \<Rightarrow> real \<Rightarrow> PlayList \<Rightarrow> bool \<times> PlayList" where
  "has_active_track sub now1 now2 s =
     (if is_paused s then (True, s)
      else case elapsed sub now1 s of (e1, s1) \<Rightarrow>
        if e1 = 0 then (False, s1)
        else case elapsed sub now2 s1 of (e2, s2) \<Rightarrow>
          if e2 > 0 then (True, s2) else (False, s2))"

definition remaining :: "subtraction \<Rightarrow> real \<Rightarrow> PlayList \<Rightarrow> real \<times> PlayList" where
  "remaining sub now s =
     (case current_track s of
        Some r \<Rightarrow>
          (case elapsed sub now s of (e, s1) \<Rightarrow> (sub (track_time (store s1 r)) e, s1))
      | None \<Rightarrow> (0, s))"

definition next_track :: "real \<Rightarrow> PlayList \<Rightarrow> (error + ref option) \<times> PlayList" where
  "next_track now s =
     (if length (track_list s) > 0 then
        if track_index s \<le> int (length (track_list s)) then
          case py_index (track_list s) (track_index s) of
            Inl e \<Rightarrow> (Inl e, s)
          | Inr r \<Rightarrow>
              (Inr (Some r),
               (set_start r now (s\<lparr>current_track := Some r\<rparr>))
                 \<lparr>track_index := track_index s + 1\<rparr>)
        else (Inr None, s)
      else (Inr None, s))"

definition is_last_track :: "PlayList \<Rightarrow> bool option \<times> PlayList" where
  "is_last_track s =
     (if length (track_list s) > 0 then
        if track_index s \<ge> int (length (track_list s)) then (Some True, s)
        else (Some False, s)
      else (None, s))"

definition queue :: "PlayList \<Rightarrow> (int \<times> int) option \<times> PlayList" where
  "queue s =
     (if length (track_list s) > 0 then
        (Some (int (length (track_list s)),
               int (length (track_list s)) - track_index s), s)
      else (None, s))"

subsection \<open>Timing and transport\<close>

definition start :: "real \<Rightarrow> string \<Rightarrow> ref \<Rightarrow> PlayList \<Rightarrow> ref \<times> PlayList" where
  "start now owner r s =
     (r, set_start r now (set_owner r owner ((unpause s)\<lparr>current_track := Some r\<rparr>)))"

text \<open>
  \<^verbatim>\<open>play\<close> reads the clock for the new start and again inside
  \<^verbatim>\<open>self.remaining\<close>. With no current track the attribute write raises
  AttributeError, after the pause flag has been cleared.
\<close>

definition play ::
  "subtraction \<Rightarrow> real \<Rightarrow> real \<Rightarrow> real \<Rightarrow> PlayList \<Rightarrow> (error + real) \<times> PlayList" where
  "play sub now1 offset now2 s =
     (case current_track (unpause s) of
        None \<Rightarrow> (Inl AttributeError, unpause s)
      | Some r \<Rightarrow>
          (case remaining sub now2 (set_start r (sub now1 offset) (unpause s)) of
             (t, s') \<Rightarrow> (Inr t, s')))"

definition replay :: "real \<Rightarrow> PlayList \<Rightarrow> (error + ref) \<times> PlayList" where
  "replay now s =
     (case current_track (unpause s) of
        None \<Rightarrow> (Inl AttributeError, unpause s)
      | Some r \<Rightarrow> (Inr r, set_start r now (unpause s)))"

definition pause ::
  "subtraction \<Rightarrow> real \<Rightarrow> real \<Rightarrow> PlayList \<Rightarrow> (error + unit) \<times> PlayList" where
  "pause sub now offset s =
     (let s1 = s\<lparr>is_paused := True\<rparr> in
      case current_track s1 of
        None \<Rightarrow> (Inl AttributeError, s1)
      | Some r \<Rightarrow>
          if offset \<noteq> 0 then (Inr (), set_pause r offset s1)
          else (Inr (), set_pause r (sub now (track_start (store s1 r))) s1))"

definition stop :: "PlayList \<Rightarrow> (error + unit) \<times> PlayList" where
  "stop s =
     (let s1 = s\<lparr>is_paused := False\<rparr> in
      case current_track s1 of
        None \<Rightarrow> (Inl AttributeError, s1)
      | Some r \<Rightarrow> (Inr (), set_pause r 0 (set_start r 0 s1)))"

subsection \<open>Changing the track list\<close>

definition add :: "string \<Rightarrow> ref \<Rightarrow> PlayList \<Rightarrow> ref option \<times> PlayList" where
  "add owner r s =
     (if truthy (track_id (store s r)) then
        (Some r, (set_owner r owner s)\<lparr>track_list := track_list s @ [r]\<rparr>)
      else (None, s))"

fun add_each :: "string \<Rightarrow> ref list \<Rightarrow> PlayList \<Rightarrow> PlayList" where
  "add_each owner [] s = s"
| "add_each owner (r # rs) s = add_each owner rs (snd (add owner r s))"

definition add_list :: "string \<Rightarrow> ref list \<Rightarrow> PlayList \<Rightarrow> unit \<times> PlayList" where
  "add_list owner tracks s =
     (if length tracks > 0 then ((), add_each owner tracks s) else ((), s))"

definition clear :: "PlayList \<Rightarrow> bool \<times> PlayList" where
  "clear s =
     (if length (track_list s) > 0 then
        (True, s\<lparr>track_list := [], track_index := 0\<rparr>)
      else (False, s))"

text \<open>
  The loop of \<^verbatim>\<open>get_tracks\<close> over \<^verbatim>\<open>range(start_index, len(self.track_list))\<close>,
  with its counter \<^verbatim>\<open>ic\<close>.
\<close>

fun get_tracks_loop ::
  "int list \<Rightarrow> int \<Rightarrow> int \<Rightarrow> ref list \<Rightarrow> (int \<times> ref) list \<Rightarrow> error + (int \<times> ref) list" where
  "get_tracks_loop [] amount ic xs result = Inr result"
| "get_tracks_loop (i # is) amount ic xs result =
     (if ic \<le> amount - 1 then
        case py_index xs i of
          Inl e \<Rightarrow> Inl e
        | Inr r \<Rightarrow> get_tracks_loop is amount (ic + 1) xs (result @ [(i, r)])
      else get_tracks_loop is amount ic xs result)"

definition get_tracks ::
  "int \<Rightarrow> bool \<Rightarrow> PlayList \<Rightarrow> (error + (int \<times> ref) list) \<times> PlayList" where
  "get_tracks amount from_index s =
     (if length (track_list s) > 0 then
        (get_tracks_loop
           [(if from_index then track_index s else 0)..int (length (track_list s)) - 1]
           amount 0 (track_list s) [], s)
      else (Inr [], s))"

definition next_track_info ::
  "int \<Rightarrow> PlayList \<Rightarrow> (error + (int \<times> ref) option) \<times> PlayList" where
  "next_track_info jump s =
     (if jump \<noteq> 0 then
        if track_index s + jump < int (length (track_list s)) then
          case py_index (track_list s) (track_index s + jump) of
            Inl e \<Rightarrow> (Inl e, s)
          | Inr r \<Rightarrow> (Inr (Some (track_index s + jump, r)), s)
        else (Inr None, s)
      else if track_index s < int (length (track_list s)) then
        case py_index (track_list s) (track_index s) of
          Inl e \<Rightarrow> (Inl e, s)
        | Inr r \<Rightarrow> (Inr (Some (track_index s, r)), s)
      else (Inr None, s))"

subsection \<open>Decimal strings\<close>

text \<open>
  \<^verbatim>\<open>delete\<close> records each deleted index as \<^verbatim>\<open>str(i)\<close> and reads the first one
  back with \<^verbatim>\<open>int(...)\<close>. \<open>py_str\<close> is the decimal numeral of an integer;
  \<open>py_int\<close> reads an optional minus sign and decimal digits, and raises ValueError
  on anything else.
\<close>

definition digit_char :: "nat \<Rightarrow> char" where
  "digit_char d = char_of (48 + d)"

function str_nat :: "nat \<Rightarrow> string" where
  "str_nat n = (if n < 10 then [digit_char n]
                else str_nat (n div 10) @ [digit_char (n mod 10)])"
  by pat_completeness auto
termination
  by (relation "measure (\<lambda>n. n)") auto

definition py_str :: "int \<Rightarrow> string" where
  "py_str i = (if i < 0 then CHR ''-'' # str_nat (nat (- i)) else str_nat (nat i))"

definition is_digit :: "char \<Rightarrow> bool" where
  "is_digit c \<longleftrightarrow> 48 \<le> (of_char c :: nat) \<and> (of_char c :: nat) \<le> 57"

definition digit_val :: "char \<Rightarrow> nat" where
  "digit_val c = of_char c - 48"

definition parse_nat :: "string \<Rightarrow> error + nat" where
  "parse_nat s =
     (if s \<noteq> [] \<and> list_all is_digit s
      then Inr (foldl (\<lambda>a c. 10 * a + digit_val c) 0 s)
      else Inl ValueError)"

definition py_int :: "string \<Rightarrow> error + int" where
  "py_int s =
     (if s \<noteq> [] \<and> hd s = CHR ''-'' then
        case parse_nat (tl s) of Inl e \<Rightarrow> Inl e | Inr n \<Rightarrow> Inr (- int n)
      else case parse_nat s of Inl e \<Rightarrow> Inl e | Inr n \<Rightarrow> Inr (int n))"

subsection \<open>Deleting\<close>

text \<open>
  The loop of \<^verbatim>\<open>delete\<close> over the sorted indexes. Its guard reads
  \<^verbatim>\<open>len(self.track_list)\<close> anew in every round, after the deletions made so far.
\<close>

fun delete_loop ::
  "int list \<Rightarrow> PlayList \<Rightarrow> string list \<Rightarrow> (error + string list) \<times> PlayList" where
  "delete_loop [] s deleted = (Inr deleted, s)"
| "delete_loop (i # is) s deleted =
     (if track_index s \<le> i \<and> i < int (length (track_list s)) then
        case py_del (track_list s) i of
          Inl e \<Rightarrow> (Inl e, s)
        | Inr xs \<Rightarrow> delete_loop is (s\<lparr>track_list := xs\<rparr>) (deleted @ [py_str i])
      else delete_loop is s deleted)"

text \<open>The dictionary that \<^verbatim>\<open>delete\<close> returns, and the values it holds.\<close>

datatype dval = VStr string | VList "string list" | VInt int

definition delete ::
  "int list \<Rightarrow> bool \<Rightarrow> PlayList \<Rightarrow> (error + (string \<rightharpoonup> dval) option) \<times> PlayList" where
  "delete indexes by_range s =
     (let tracks = track_list s in
      case delete_loop (rev (sort indexes)) s [] of
        (Inl e, s1) \<Rightarrow> (Inl e, s1)
      | (Inr deleted, s1) \<Rightarrow>
          let deleted_indexes = rev deleted in
          if length deleted_indexes > 0 then
            case
              (if by_range then
                 Inr (Map.empty(''from'' \<mapsto> VStr (hd deleted_indexes),
                                ''to'' \<mapsto> VStr (last deleted_indexes)))
               else if length deleted_indexes = 1 then
                 case py_int (hd deleted_indexes) of
                   Inl e \<Rightarrow> Inl e
                 | Inr k \<Rightarrow>
                     (case py_index tracks k of
                        Inl e \<Rightarrow> Inl e
                      | Inr r \<Rightarrow>
                          Inr (Map.empty(''track_title'' \<mapsto> VStr (track_title (store s1 r)))))
               else Inr Map.empty)
            of
              Inl e \<Rightarrow> (Inl e, s1)
            | Inr result \<Rightarrow>
                (Inr (Some (result(''deleted_indexes'' \<mapsto> VList deleted_indexes,
                                   ''deleted_indexes_len'' \<mapsto>
                                      VInt (int (length deleted_indexes))))), s1)
          else (Inr None, s1))"

subsection \<open>Calls and reachable states\<close>

text \<open>
  A call of a method or a read of a property, with its arguments and the clock values it
  reads; \<open>exec\<close> gives the state it leaves, also when it raises.
\<close>

datatype call =
    Track_get | Current_index | Last_index
  | Has_active_track real real | Elapsed real | Remaining real
  | Next_track real | Is_last_track | Queue
  | Start real string ref | Play real real real | Replay real
  | Pause real real | Stop
  | Add string ref | Add_list string "ref list" | Clear
  | Get_tracks int bool | Next_track_info int | Delete "int list" bool

fun exec :: "subtraction \<Rightarrow> call \<Rightarrow> PlayList \<Rightarrow> PlayList" where
  "exec sub Track_get s = snd (track s)"
| "exec sub Current_index s = snd (current_index s)"
| "exec sub Last_index s = snd (last_index s)"
| "exec sub (Has_active_track now1 now2) s = snd (has_active_track sub now1 now2 s)"
| "exec sub (Elapsed now) s = snd (elapsed sub now s)"
| "exec sub (Remaining now) s = snd (remaining sub now s)"
| "exec sub (Next_track now) s = snd (next_track now s)"
| "exec sub Is_last_track s = snd (is_last_track s)"
| "exec sub Queue s = snd (queue s)"
| "exec sub (Start now owner r) s = snd (start now owner r s)"
| "exec sub (Play now1 offset now2) s = snd (play sub now1 offset now2 s)"
| "exec sub (Replay now) s = snd (replay now s)"
| "exec sub (Pause now offset) s = snd (pause sub now offset s)"
| "exec sub Stop s = snd (stop s)"
| "exec sub (Add owner r) s = snd (add owner r s)"
| "exec sub (Add_list owner rs) s = snd (add_list owner rs s)"
| "exec sub Clear s = snd (clear s)"
| "exec sub (Get_tracks amount from_index) s = snd (get_tracks amount from_index s)"
| "exec sub (Next_track_info jump) s = snd (next_track_info jump s)"
| "exec sub (Delete indexes by_range) s = snd (delete indexes by_range s)"

inductive reachable :: "subtraction \<Rightarrow> PlayList \<Rightarrow> bool" for sub where
  reachable_init: "reachable sub (init st)"
| reachable_exec: "reachable sub s \<Longrightarrow> reachable sub (exec sub c s)"

text \<open>
  The transport methods \<^verbatim>\<open>play\<close>, \<^verbatim>\<open>replay\<close>, \<^verbatim>\<open>pause\<close> and \<^verbatim>\<open>stop\<close>
  write into \<^verbatim>\<open>self.current_track\<close> without testing it; their caller is to make
  sure that there is a current track.
\<close>

fun transport :: "call \<Rightarrow> bool" where
  "transport (Play now1 offset now2) = True"
| "transport (Replay now) = True"
| "transport (Pause now offset) = True"
| "transport Stop = True"
| "transport c = False"

definition guarded :: "call \<Rightarrow> PlayList \<Rightarrow> bool" where
  "guarded c s \<longleftrightarrow> (transport c \<longrightarrow> current_track s \<noteq> None)"

inductive reachable_guarded :: "subtraction \<Rightarrow> PlayList \<Rightarrow> bool" for sub where
  guarded_init: "reachable_guarded sub (init st)"
| guarded_exec:
    "reachable_guarded sub s \<Longrightarrow> guarded c s \<Longrightarrow> reachable_guarded sub (exec sub c s)"

subsection \<open>Invariants\<close>

text \<open>The index stays within the list; a set pause flag comes with a current track.\<close>

definition cursor_inv :: "PlayList \<Rightarrow> bool" where
  "cursor_inv s \<longleftrightarrow> 0 \<le> track_index s \<and> track_index s \<le> int (length (track_list s))"

definition pause_inv :: "PlayList \<Rightarrow> bool" where
  "pause_inv s \<longleftrightarrow> (is_paused s \<longrightarrow> current_track s \<noteq> None)"

subsection \<open>What delete is to remove\<close>



definition without :: "int list \<Rightarrow> 'a list \<Rightarrow> 'a list" where
  "without is xs = nths xs {k. int k \<notin> set is}"



subsection \<open>Example states\<close>

text \<open>
  A store in which the object at reference 0 has no identity and every other object has
  one, the playlist after \<^verbatim>\<open>add('alice', t)\<close> for the object at reference 7, and
  the playlist after \<^verbatim>\<open>start('bob', t)\<close> for it when the clock reads 10.
\<close>

text \<open>
  The examples use whole numbers of small magnitude, on which the subtraction of floats
  is exact.
\<close>

definition exact_sub :: subtraction where
  "exact_sub a b = a - b"

definition demo_store :: "ref \<Rightarrow> Track" where
  "demo_store r =
     \<lparr>track_id = (if r = 0 then NoneId else IntId (int r)),
      track_title = ''track '' @ str_nat r, track_owner = [],
      track_time = 200, track_start = 0, track_pause = 0\<rparr>"

definition demo_one :: PlayList where
  "demo_one = exec exact_sub (Add ''alice'' 7) (init demo_store)"

definition demo_playing :: PlayList where
  "demo_playing = exec exact_sub (Start 10 ''bob'' 7) (init demo_store)"

text \<open>The playlist of one track after its track has been served.\<close>

definition demo_played :: PlayList where
  "demo_played = exec exact_sub (Next_track 10) demo_one"


section \<open>Properties of the methods\<close>

subsection \<open>Frames\<close>

lemmas setters = set_owner_def set_start_def set_pause_def unpause_def

lemma elapsed_snd [simp]: "snd (elapsed sub now s) = s"
  by (simp add: elapsed_def Let_def split: option.splits)

lemma remaining_snd [simp]: "snd (remaining sub now s) = s"
  by (simp add: remaining_def split: option.splits prod.splits)
    (metis elapsed_snd snd_conv)

lemma has_active_track_snd [simp]: "snd (has_active_track sub now1 now2 s) = s"
  by (simp add: has_active_track_def split: prod.splits)
    (metis elapsed_snd snd_conv)

lemma play_snd:
  "snd (play sub now1 offset now2 s) =
     (case current_track s of None \<Rightarrow> unpause s
      | Some r \<Rightarrow> set_start r (sub now1 offset) (unpause s))"
proof (cases "current_track s")
  case None
  then show ?thesis by (simp add: play_def unpause_def)
next
  case (Some r)
  then have "current_track (unpause s) = Some r" by (simp add: unpause_def)
  then have "snd (play sub now1 offset now2 s)
      = snd (remaining sub now2 (set_start r (sub now1 offset) (unpause s)))"
    by (simp add: play_def case_prod_beta)
  with Some show ?thesis by simp
qed

lemma delete_loop_frame:
  "\<exists>xs. snd (delete_loop is s acc) = s\<lparr>track_list := xs\<rparr>"
proof (induction "is" arbitrary: s acc)
  case Nil
  have "s = s\<lparr>track_list := track_list s\<rparr>" by simp
  then show ?case by (metis delete_loop.simps(1) snd_conv)
next
  case (Cons i "is")
  show ?case
  proof (cases "track_index s \<le> i \<and> i < int (length (track_list s))")
    case False
    show ?thesis using Cons.IH [of s acc] by (simp add: False)
  next
    case True
    show ?thesis
    proof (cases "py_del (track_list s) i")
      case (Inl e)
      have "s = s\<lparr>track_list := track_list s\<rparr>" by simp
      with True Inl show ?thesis by (metis delete_loop.simps(2) sum.simps(5) snd_conv)
    next
      case (Inr ys)
      obtain zs where "snd (delete_loop is (s\<lparr>track_list := ys\<rparr>) (acc @ [py_str i]))
            = s\<lparr>track_list := ys\<rparr>\<lparr>track_list := zs\<rparr>"
        using Cons.IH by blast
      with True Inr show ?thesis by auto
    qed
  qed
qed

lemma delete_snd: "snd (delete indexes by_range s) = snd (delete_loop (rev (sort indexes)) s [])"
  by (simp add: delete_def Let_def split: prod.splits sum.splits)

lemma py_del_length:
  "py_del xs i = Inr ys \<Longrightarrow> int (length ys) = int (length xs) - 1"
  by (auto simp: py_del_def norm_index_def split: if_splits)

lemma delete_loop_cursor:
  "track_index s \<le> int (length (track_list s)) \<Longrightarrow>
   track_index (snd (delete_loop is s acc)) \<le> int (length (track_list (snd (delete_loop is s acc))))"
proof (induction "is" arbitrary: s acc)
  case Nil
  then show ?case by simp
next
  case (Cons i "is")
  show ?case
  proof (cases "track_index s \<le> i \<and> i < int (length (track_list s))")
    case False
    show ?thesis using Cons by (simp add: False)
  next
    case True
    show ?thesis
    proof (cases "py_del (track_list s) i")
      case (Inl e)
      with True Cons.prems show ?thesis by simp
    next
      case (Inr ys)
      then have "int (length ys) = int (length (track_list s)) - 1"
        by (rule py_del_length)
      with True have "track_index (s\<lparr>track_list := ys\<rparr>)
            \<le> int (length (track_list (s\<lparr>track_list := ys\<rparr>)))"
        by auto
      from Cons.IH [OF this] True Inr show ?thesis by simp
    qed
  qed
qed

lemma add_each_frame:
  "\<exists>xs st. add_each owner rs s = s\<lparr>track_list := track_list s @ xs, store := st\<rparr>"
proof (induction rs arbitrary: s)
  case Nil
  have "s = s\<lparr>track_list := track_list s @ [], store := store s\<rparr>" by simp
  then show ?case by (metis add_each.simps(1))
next
  case (Cons r rs)
  obtain xs st where *: "add_each owner rs (snd (add owner r s)) =
     (snd (add owner r s))\<lparr>track_list := track_list (snd (add owner r s)) @ xs, store := st\<rparr>"
    using Cons.IH by blast
  show ?case
  proof (cases "truthy (track_id (store s r))")
    case True
    then have "add_each owner (r # rs) s = s\<lparr>track_list := track_list s @ (r # xs), store := st\<rparr>"
      using * by (simp add: add_def set_owner_def)
    then show ?thesis by blast
  next
    case False
    then have "add_each owner (r # rs) s = s\<lparr>track_list := track_list s @ xs, store := st\<rparr>"
      using * by (simp add: add_def)
    then show ?thesis by blast
  qed
qed

lemma exec_cursor_inv: "cursor_inv s \<Longrightarrow> cursor_inv (exec sub c s)"
proof (cases c)
  case (Delete indexes by_range)
  assume inv: "cursor_inv s"
  obtain xs where xs: "snd (delete_loop (rev (sort indexes)) s []) = s\<lparr>track_list := xs\<rparr>"
    using delete_loop_frame by blast
  from inv have "track_index s \<le> int (length (track_list s))" by (simp add: cursor_inv_def)
  from delete_loop_cursor [OF this, of "rev (sort indexes)" "[]"] xs inv
  show ?thesis by (simp add: Delete delete_snd cursor_inv_def)
next
  case (Add_list owner rs)
  assume inv: "cursor_inv s"
  obtain xs st where "add_each owner rs s = s\<lparr>track_list := track_list s @ xs, store := st\<rparr>"
    using add_each_frame by blast
  with inv show ?thesis by (simp add: Add_list add_list_def cursor_inv_def)
next
  case (Next_track now)
  assume inv: "cursor_inv s"
  then show ?thesis
    by (auto simp: Next_track next_track_def cursor_inv_def py_index_def norm_index_def setters
             split: sum.splits if_splits)
qed (auto simp: cursor_inv_def track_def current_index_def last_index_def is_last_track_def
      queue_def start_def play_snd replay_def pause_def stop_def add_def clear_def
      get_tracks_def next_track_info_def setters Let_def
      split: option.splits sum.splits prod.splits if_splits)

lemma reachable_cursor_inv: "reachable sub s \<Longrightarrow> cursor_inv s"
  by (induction rule: reachable.induct) (simp_all add: exec_cursor_inv, simp add: cursor_inv_def init_def)

lemma exec_cursor_mono: "\<not> (c = Clear) \<Longrightarrow> track_index s \<le> track_index (exec sub c s)"
proof (cases c)
  case (Delete indexes by_range)
  obtain xs where xs: "snd (delete_loop (rev (sort indexes)) s []) = s\<lparr>track_list := xs\<rparr>"
    using delete_loop_frame by blast
  then show ?thesis by (simp add: Delete delete_snd)
next
  case (Add_list owner rs)
  obtain xs st where "add_each owner rs s = s\<lparr>track_list := track_list s @ xs, store := st\<rparr>"
    using add_each_frame by blast
  then show ?thesis by (simp add: Add_list add_list_def)
next
  case (Next_track now)
  then show ?thesis
    by (auto simp: Next_track next_track_def py_index_def norm_index_def setters
             split: sum.splits if_splits)
qed (auto simp: track_def current_index_def last_index_def is_last_track_def
      queue_def start_def play_snd replay_def pause_def stop_def add_def clear_def
      get_tracks_def next_track_info_def setters Let_def
      split: option.splits sum.splits prod.splits if_splits)

subsection \<open>The example states\<close>

lemma demo_one_fields:
  "track_list demo_one = [7]" "track_index demo_one = 0" "current_track demo_one = None"
  "is_paused demo_one = False"
  by (simp_all add: demo_one_def add_def init_def demo_store_def set_owner_def)

lemma demo_one_reachable: "reachable exact_sub demo_one"
  unfolding demo_one_def by (intro reachable.intros)

lemma demo_playing_fields:
  "track_list demo_playing = []" "track_index demo_playing = 0"
  "current_track demo_playing = Some 7" "is_paused demo_playing = False"
  "track_start (store demo_playing 7) = 10" "track_time (store demo_playing 7) = 200"
  "track_pause (store demo_playing 7) = 0" "track_owner (store demo_playing 7) = ''bob''"
  by (simp_all add: demo_playing_def start_def init_def demo_store_def setters)

subsection \<open>clear\<close>

text \<open>
  C3. In every reachable state, \<^verbatim>\<open>clear()\<close> returns true exactly when the track list
  was not empty before the call, and after the call the track list is empty and the index
  is 0.
\<close>

theorem clear_spec:
  "reachable sub s \<Longrightarrow>
     (fst (clear s) \<longleftrightarrow> track_list s \<noteq> []) \<and>
     track_list (snd (clear s)) = [] \<and> track_index (snd (clear s)) = 0"
  using reachable_cursor_inv [of sub s] by (auto simp: clear_def cursor_inv_def)

theorem clear_spec_witness:
  "reachable exact_sub demo_one \<and> fst (clear demo_one) \<and>
   track_list (snd (clear demo_one)) = [] \<and> track_index (snd (clear demo_one)) = 0"
  using clear_spec [OF demo_one_reachable] demo_one_reachable by (simp add: demo_one_fields)

subsection \<open>The index invariant\<close>

text \<open>
  C6. In every reachable state the index is at least 0 and at most the length of the
  track list; every call, whether it returns or raises, preserves this; and no call other
  than \<^verbatim>\<open>clear()\<close> makes the index smaller.
\<close>

theorem cursor_invariant:
  "(reachable sub s \<longrightarrow> 0 \<le> track_index s \<and> track_index s \<le> int (length (track_list s))) \<and>
   (cursor_inv s \<longrightarrow> cursor_inv (exec sub c s)) \<and>
   (c \<noteq> Clear \<longrightarrow> track_index s \<le> track_index (exec sub c s))"
  using reachable_cursor_inv [of sub s] exec_cursor_inv [of s sub c] exec_cursor_mono [of c s sub]
  by (auto simp: cursor_inv_def)

theorem cursor_invariant_witness:
  "reachable exact_sub demo_one \<and> cursor_inv demo_one \<and> Next_track 5 \<noteq> Clear \<and>
   0 \<le> track_index demo_one \<and> track_index demo_one \<le> int (length (track_list demo_one)) \<and>
   cursor_inv (exec exact_sub (Next_track 5) demo_one) \<and>
   track_index demo_one \<le> track_index (exec exact_sub (Next_track 5) demo_one)"
proof -
  have c: "cursor_inv demo_one" by (simp add: cursor_inv_def demo_one_fields)
  show ?thesis
    using cursor_invariant [of exact_sub demo_one "Next_track 5"] demo_one_reachable c by simp
qed

subsection \<open>elapsed and remaining\<close>

text \<open>
  C7. \<^verbatim>\<open>remaining\<close> is 0 when there is no current track and otherwise the current
  track's duration minus \<^verbatim>\<open>elapsed\<close>, read at the same clock value and subtracted
  as the program subtracts; for a track that is not paused and whose time since the start
  does not exceed the duration, this is the duration minus the time since its start.
\<close>

theorem remaining_spec:
  "fst (remaining sub now s) =
     (case current_track s of None \<Rightarrow> 0
      | Some r \<Rightarrow> sub (track_time (store s r)) (fst (elapsed sub now s))) \<and>
   (current_track s = Some r \<and> \<not> is_paused s \<and>
      \<not> sub now (track_start (store s r)) > track_time (store s r) \<longrightarrow>
    fst (elapsed sub now s) = sub now (track_start (store s r)) \<and>
    fst (remaining sub now s) =
      sub (track_time (store s r)) (sub now (track_start (store s r))) \<and>
    fst (remaining sub now s) = sub (track_time (store s r)) (fst (elapsed sub now s)))"
  by (auto simp: remaining_def elapsed_def Let_def split: option.splits prod.splits)

theorem remaining_spec_witness:
  "current_track demo_playing = Some 7 \<and> \<not> is_paused demo_playing \<and>
   \<not> exact_sub 50 (track_start (store demo_playing 7)) > track_time (store demo_playing 7) \<and>
   fst (remaining exact_sub 50 demo_playing) = 160 \<and>
   fst (elapsed exact_sub 50 demo_playing) = 40"
  using remaining_spec [of exact_sub 50 demo_playing 7]
  by (simp add: demo_playing_fields exact_sub_def)




subsection \<open>add and add_list\<close>

lemma add_track_id: "track_id (store (snd (add owner r s)) r') = track_id (store s r')"
  by (simp add: add_def set_owner_def)

lemma add_each_list:
  "track_list (add_each owner rs s) =
     track_list s @ filter (\<lambda>r. truthy (track_id (store s r))) rs"
proof (induction rs arbitrary: s)
  case Nil
  then show ?case by simp
next
  case (Cons r rs)
  have "track_list (add_each owner (r # rs) s) =
      track_list (snd (add owner r s)) @
        filter (\<lambda>r'. truthy (track_id (store (snd (add owner r s)) r'))) rs"
    using Cons.IH [of "snd (add owner r s)"] by simp
  also have "\<dots> = track_list (snd (add owner r s)) @
        filter (\<lambda>r'. truthy (track_id (store s r'))) rs"
    by (simp only: add_track_id)
  finally show ?case by (simp add: add_def set_owner_def)
qed

lemma add_each_owner:
  "track_owner (store (add_each owner rs s) r) =
     (if r \<in> set rs \<and> truthy (track_id (store s r)) then owner else track_owner (store s r))"
proof (induction rs arbitrary: s)
  case Nil
  then show ?case by simp
next
  case (Cons r' rs)
  show ?case
    using Cons.IH [of "snd (add owner r' s)"] add_track_id [of owner r' s r]
    by (auto simp: add_def set_owner_def)
qed

text \<open>
  C8. \<^verbatim>\<open>add(owner, track)\<close> returns nothing and leaves the state unchanged when the
  track's identity is false; otherwise it sets the track's owner, appends the track to the
  end of the track list, which grows by one, and returns the track. \<^verbatim>\<open>add_list\<close>
  appends, in the given order, exactly the given tracks whose identity is true; when all
  N of them have one, the track list grows by exactly N and every one of them carries the
  owner.
\<close>

theorem add_spec:
  "(truthy (track_id (store s r)) \<longrightarrow>
      fst (add owner r s) = Some r \<and>
      track_list (snd (add owner r s)) = track_list s @ [r] \<and>
      length (track_list (snd (add owner r s))) = length (track_list s) + 1 \<and>
      track_owner (store (snd (add owner r s)) r) = owner) \<and>
   (\<not> truthy (track_id (store s r)) \<longrightarrow> add owner r s = (None, s)) \<and>
   track_list (snd (add_list owner rs s)) =
      track_list s @ filter (\<lambda>r. truthy (track_id (store s r))) rs \<and>
   ((\<forall>r \<in> set rs. truthy (track_id (store s r))) \<longrightarrow>
      track_list (snd (add_list owner rs s)) = track_list s @ rs \<and>
      length (track_list (snd (add_list owner rs s))) = length (track_list s) + length rs \<and>
      (\<forall>r \<in> set rs. track_owner (store (snd (add_list owner rs s)) r) = owner))"
proof -
  have l: "track_list (snd (add_list owner rs s)) =
      track_list s @ filter (\<lambda>r. truthy (track_id (store s r))) rs"
    by (cases rs) (simp_all add: add_list_def add_each_list del: add_each.simps)
  have o: "track_owner (store (snd (add_list owner rs s)) r') = owner"
    if "r' \<in> set rs" "truthy (track_id (store s r'))" for r'
    using that add_each_owner [of owner rs s r'] by (cases rs) (simp_all add: add_list_def del: add_each.simps)
  have f: "filter (\<lambda>r. truthy (track_id (store s r))) rs = rs"
    if "\<forall>r \<in> set rs. truthy (track_id (store s r))"
    using that by (simp add: filter_id_conv)
  show ?thesis
    using l o f by (auto simp: add_def set_owner_def)
qed

theorem add_spec_witness:
  "truthy (track_id (store (init demo_store) 7)) \<and>
   \<not> truthy (track_id (store (init demo_store) 0)) \<and>
   truthy (track_id (store (init demo_store) 10)) \<and>
   truthy (track_id (store (init demo_store) 11)) \<and>
   truthy (track_id (store (init demo_store) 12)) \<and>
   fst (add ''alice'' 7 (init demo_store)) = Some 7 \<and>
   track_list (snd (add ''alice'' 7 (init demo_store))) = [7] \<and>
   add ''alice'' 0 (init demo_store) = (None, init demo_store) \<and>
   track_list (snd (add_list ''alice'' [10, 11, 12] (init demo_store))) = [10, 11, 12] \<and>
   length (track_list (snd (add_list ''alice'' [10, 11, 12] (init demo_store)))) = 3"
proof -
  have a: "truthy (track_id (store (init demo_store) 7))"
    and b: "\<not> truthy (track_id (store (init demo_store) 0))"
    and c: "\<forall>r \<in> set [10, 11, 12]. truthy (track_id (store (init demo_store) r))"
    and d: "track_list (init demo_store) = []"
    by (simp_all add: init_def demo_store_def)
  show ?thesis
    using add_spec [of "init demo_store" 7 "''alice''" "[10, 11, 12]"]
      add_spec [of "init demo_store" 0 "''alice''" "[10, 11, 12]"] a b c d
    by simp
qed

subsection \<open>The pause invariant\<close>

lemma exec_pause_inv: "pause_inv s \<Longrightarrow> guarded c s \<Longrightarrow> pause_inv (exec sub c s)"
proof (cases c)
  case (Delete indexes by_range)
  assume inv: "pause_inv s"
  obtain xs where xs: "snd (delete_loop (rev (sort indexes)) s []) = s\<lparr>track_list := xs\<rparr>"
    using delete_loop_frame by blast
  with inv show ?thesis by (simp add: Delete delete_snd pause_inv_def)
next
  case (Add_list owner rs)
  assume inv: "pause_inv s"
  obtain xs st where "add_each owner rs s = s\<lparr>track_list := track_list s @ xs, store := st\<rparr>"
    using add_each_frame by blast
  with inv show ?thesis by (simp add: Add_list add_list_def pause_inv_def)
next
  case (Next_track now)
  assume inv: "pause_inv s"
  then show ?thesis
    by (auto simp: Next_track next_track_def pause_inv_def setters split: sum.splits if_splits)
qed (auto simp: pause_inv_def guarded_def track_def current_index_def last_index_def
      is_last_track_def queue_def start_def play_snd replay_def pause_def stop_def add_def
      clear_def get_tracks_def next_track_info_def setters Let_def
      split: option.splits sum.splits prod.splits if_splits)

lemma reachable_guarded_pause_inv: "reachable_guarded sub s \<Longrightarrow> pause_inv s"
  by (induction rule: reachable_guarded.induct)
    (simp_all add: exec_pause_inv, simp add: pause_inv_def init_def)

text \<open>
  Without a current track \<^verbatim>\<open>pause\<close> sets the flag and then raises, which is why
  the invariant needs the caller's check.
\<close>

lemma pause_without_current:
  "fst (pause exact_sub 20 0 (init demo_store)) = Inl AttributeError"
  "\<not> pause_inv (exec exact_sub (Pause 20 0) (init demo_store))"
  by (simp_all add: pause_def init_def pause_inv_def)

text \<open>
  C9. In every state reached by calls in which the transport methods \<^verbatim>\<open>play\<close>,
  \<^verbatim>\<open>replay\<close>, \<^verbatim>\<open>pause\<close> and \<^verbatim>\<open>stop\<close> are made only when there is a
  current track, a set pause flag implies that there is a current track; and every such
  call preserves this.
\<close>

theorem paused_invariant:
  "(reachable_guarded sub s \<longrightarrow> (is_paused s \<longrightarrow> current_track s \<noteq> None)) \<and>
   (pause_inv s \<and> guarded c s \<longrightarrow> pause_inv (exec sub c s))"
  using reachable_guarded_pause_inv [of sub s] exec_pause_inv [of s c sub]
  by (auto simp: pause_inv_def)

lemma demo_playing_guarded: "reachable_guarded exact_sub demo_playing"
  unfolding demo_playing_def
  by (rule reachable_guarded.intros(2) [OF reachable_guarded.intros(1)]) (simp add: guarded_def)

theorem paused_invariant_witness:
  "reachable_guarded exact_sub (exec exact_sub (Pause 20 0) demo_playing) \<and>
   is_paused (exec exact_sub (Pause 20 0) demo_playing) \<and>
   current_track (exec exact_sub (Pause 20 0) demo_playing) \<noteq> None \<and>
   pause_inv demo_playing \<and> guarded (Pause 20 0) demo_playing \<and>
   pause_inv (exec exact_sub (Pause 20 0) demo_playing)"
proof -
  have g: "guarded (Pause 20 0) demo_playing"
    by (simp add: guarded_def demo_playing_fields)
  have r: "reachable_guarded exact_sub (exec exact_sub (Pause 20 0) demo_playing)"
    by (rule reachable_guarded.intros(2) [OF demo_playing_guarded g])
  have p: "pause_inv demo_playing" by (simp add: pause_inv_def demo_playing_fields)
  have i: "is_paused (exec exact_sub (Pause 20 0) demo_playing)"
    by (simp add: pause_def demo_playing_fields setters)
  show ?thesis
    using paused_invariant [of exact_sub "exec exact_sub (Pause 20 0) demo_playing" "Pause 20 0"]
      paused_invariant [of exact_sub demo_playing "Pause 20 0"] g r p i
    by simp
qed

subsection \<open>Queries leave the state alone\<close>

lemma get_tracks_snd [simp]: "snd (get_tracks amount from_index s) = s"
  by (simp add: get_tracks_def)

lemma next_track_info_snd [simp]: "snd (next_track_info jump s) = s"
  by (simp add: next_track_info_def split: sum.splits)

text \<open>
  C10. \<^verbatim>\<open>is_last_track\<close>, \<^verbatim>\<open>queue\<close>, \<^verbatim>\<open>get_tracks\<close>,
  \<^verbatim>\<open>next_track_info\<close>, \<^verbatim>\<open>elapsed\<close>, \<^verbatim>\<open>remaining\<close> and
  \<^verbatim>\<open>has_active_track\<close>, and the plain properties \<^verbatim>\<open>track\<close>,
  \<^verbatim>\<open>current_index\<close> and \<^verbatim>\<open>last_index\<close>, leave the whole state, the stored
  tracks included, as it was, whether they return or raise; \<^verbatim>\<open>next_track\<close> is the
  property that changes the state, whenever it returns a track.
\<close>

theorem queries_frame:
  "snd (is_last_track s) = s \<and> snd (queue s) = s \<and>
   snd (get_tracks amount from_index s) = s \<and> snd (next_track_info jump s) = s \<and>
   snd (elapsed sub now s) = s \<and> snd (remaining sub now s) = s \<and>
   snd (has_active_track sub now1 now2 s) = s \<and>
   snd (track s) = s \<and> snd (current_index s) = s \<and> snd (last_index s) = s \<and>
   (fst (next_track now s) = Inr (Some r) \<longrightarrow> snd (next_track now s) \<noteq> s)"
proof -
  have "snd (next_track now s) \<noteq> s" if "fst (next_track now s) = Inr (Some r)"
  proof -
    from that have "track_index (snd (next_track now s)) = track_index s + 1"
      by (auto simp: next_track_def setters split: if_splits sum.splits)
    then show ?thesis by auto
  qed
  then show ?thesis
    by (simp add: is_last_track_def queue_def track_def current_index_def last_index_def)
qed

theorem queries_frame_witness:
  "fst (next_track 5 demo_one) = Inr (Some 7) \<and> snd (next_track 5 demo_one) \<noteq> demo_one \<and>
   snd (queue demo_one) = demo_one"
proof -
  have "fst (next_track 5 demo_one) = Inr (Some 7)"
    by (simp add: next_track_def demo_one_fields py_index_def norm_index_def)
  then show ?thesis
    using queries_frame [where s = demo_one and now = 5 and r = 7] by simp
qed

subsection \<open>next_track\<close>

text \<open>
  What \<^verbatim>\<open>next_track\<close> does in each region of the index: nothing on an empty list
  and beyond the end, the fetch and its three writes inside the list, and an IndexError
  when the index equals the length of a list that is not empty.
\<close>

lemma next_track_cases:
  "track_list s = [] \<Longrightarrow> next_track now s = (Inr None, s)"
  "track_list s \<noteq> [] \<Longrightarrow> int (length (track_list s)) < track_index s \<Longrightarrow>
     next_track now s = (Inr None, s)"
  "track_list s \<noteq> [] \<Longrightarrow> track_index s = int (length (track_list s)) \<Longrightarrow>
     next_track now s = (Inl IndexError, s)"
  "0 \<le> track_index s \<Longrightarrow> track_index s < int (length (track_list s)) \<Longrightarrow>
     next_track now s =
       (Inr (Some (track_list s ! nat (track_index s))),
        s\<lparr>current_track := Some (track_list s ! nat (track_index s)),
          track_index := track_index s + 1,
          store := (store s)(track_list s ! nat (track_index s) :=
                      (store s (track_list s ! nat (track_index s)))\<lparr>track_start := now\<rparr>)\<rparr>)"
  by (auto simp: next_track_def py_index_def norm_index_def setters)

text \<open>
  C1. The claim has \<^verbatim>\<open>next_track\<close> fetch \<^verbatim>\<open>track_list[track_index]\<close> in bounds
  whenever the index is at most the length. After one track has been added and served,
  the index equals the length 1, the guard \<^verbatim>\<open>track_index <= len(track_list)\<close> lets
  the fetch through, and it raises IndexError.
\<close>

theorem next_track_index_error:
  "reachable exact_sub demo_played \<and> track_list demo_played = [7] \<and> track_index demo_played = 1 \<and>
   track_index demo_played \<le> int (length (track_list demo_played)) \<and>
   fst (next_track 20 demo_played) = Inl IndexError"
proof -
  have f: "track_list demo_played = [7]" "track_index demo_played = 1"
    by (simp_all add: demo_played_def next_track_def demo_one_fields py_index_def
        norm_index_def setters)
  have r: "reachable exact_sub demo_played"
    unfolding demo_played_def by (rule reachable.intros(2) [OF demo_one_reachable])
  show ?thesis using r by (simp add: f next_track_def py_index_def norm_index_def)
qed

subsection \<open>next_track_info\<close>

text \<open>
  C5. The claim has \<^verbatim>\<open>next_track_info\<close> never raise and yield nothing when
  \<^verbatim>\<open>track_index + jump\<close> is negative. With one track in the list and the index 0, a
  jump of -2 raises IndexError, and a jump of -1 returns the pair of -1 and the last track.
\<close>

theorem next_track_info_negative_jump:
  "reachable exact_sub demo_one \<and> track_list demo_one = [7] \<and> track_index demo_one = 0 \<and>
   fst (next_track_info (- 2) demo_one) = Inl IndexError \<and>
   fst (next_track_info (- 1) demo_one) = Inr (Some (- 1, 7))"
  using demo_one_reachable
  by (simp add: demo_one_fields next_track_info_def py_index_def norm_index_def)

subsection \<open>Decimal strings read back\<close>










subsection \<open>Deleting one position of a list\<close>




subsection \<open>delete\<close>











lemma without_prefix:
  assumes "\<And>i. i \<in> set is \<Longrightarrow> int c \<le> i"
  shows "take c (without is xs) = take c xs"
proof -
  have "nths (take c xs @ drop c xs) {k. int k \<notin> set is}
      = nths (take c xs) {k. int k \<notin> set is} @
        nths (drop c xs) {j. j + length (take c xs) \<in> {k. int k \<notin> set is}}"
    by (rule nths_append)
  moreover have "nths (take c xs) {k. int k \<notin> set is} = take c xs"
    by (rule nths_all) (use assms in fastforce)
  ultimately have "without is xs = take c xs @
        nths (drop c xs) {j. j + length (take c xs) \<in> {k. int k \<notin> set is}}"
    by (simp add: without_def)
  then show ?thesis by (cases "c \<le> length xs") simp_all
qed






























end
